theory Spec2Isabelle
  imports Main
begin

section \<open>Events and the feed\<close>

text \<open>
  The feed of \<^verbatim>\<open>App.tsx\<close> is the React state \<^verbatim>\<open>eventsImmediate : Event[]\<close>. An
  \<^verbatim>\<open>Event\<close> is the record of the nostr library; the spec calls it an Item and names its
  fields \<^verbatim>\<open>id\<close>, \<^verbatim>\<open>timestamp\<close> (here \<open>created_at\<close>), \<^verbatim>\<open>authorId\<close> (here \<open>pubkey\<close>) and
  \<^verbatim>\<open>payload\<close> (here \<open>content\<close>). The field \<^verbatim>\<open>id\<close> is written \<open>id_ev\<close>, since \<open>id\<close> is
  the identity function of HOL.
\<close>

record event =
  id_ev :: string
  pubkey :: string
  created_at :: int
  kind :: int
  tags :: "string list list"
  content :: string
  sig :: string

type_synonym feed = "event list"

text \<open>
  Modelled from the spec: \<^verbatim>\<open>insertEventIntoDescendingList\<close> is imported by \<^verbatim>\<open>App.tsx\<close> from
  \<^verbatim>\<open>./utils/helperFunctions\<close>, a file of the repository that is not among the sources.
  The spec (section 4.1, operation \<^verbatim>\<open>insert\<close>) gives its two rules. The insertion
  algorithm: scan from the front for the first position whose resident item's timestamp is
  strictly less than the new item's timestamp and insert immediately before it; when there
  is no such position, insert at the end.
\<close>

fun scan_insert :: "feed \<Rightarrow> event \<Rightarrow> feed" where
  "scan_insert [] item = [item]"
| "scan_insert (x # xs) item =
     (if created_at x < created_at item then item # x # xs else x # scan_insert xs item)"

text \<open>
  Modelled from the spec: the duplicate policy of \<^verbatim>\<open>insertEventIntoDescendingList\<close> (same
  missing file). If an item with the same \<^verbatim>\<open>id\<close> already exists anywhere in the feed, the
  feed is returned unchanged; otherwise the insertion algorithm above runs.
\<close>

definition insertEventIntoDescendingList :: "feed \<Rightarrow> event \<Rightarrow> feed" where
  "insertEventIntoDescendingList feed item =
     (if id_ev item \<in> set (map id_ev feed) then feed else scan_insert feed item)"

text \<open>The feed invariants of the spec (section 3): descending timestamps, unique ids.\<close>

definition descending :: "feed \<Rightarrow> bool" where
  "descending feed = sorted_wrt (\<lambda>a b. created_at b \<le> created_at a) feed"

definition unique_ids :: "feed \<Rightarrow> bool" where
  "unique_ids feed = distinct (map id_ev feed)"

text \<open>Arrivals inserted one at a time into a starting feed, in arrival order.\<close>

definition ingest :: "feed \<Rightarrow> event list \<Rightarrow> feed" where
  "ingest feed arrivals = foldl insertEventIntoDescendingList feed arrivals"

text \<open>An item of the spec's examples: only \<^verbatim>\<open>id\<close> and the timestamp matter there.\<close>

definition item :: "string \<Rightarrow> int \<Rightarrow> event" where
  "item i ts = \<lparr>id_ev = i, pubkey = ''author'', created_at = ts, kind = 1, tags = [],
                content = [], sig = []\<rparr>"

section \<open>The App component\<close>

text \<open>
  The state of \<^verbatim>\<open>App\<close>: the hooks \<^verbatim>\<open>pool\<close>, \<^verbatim>\<open>eventsImmediate\<close>, the debounced \<^verbatim>\<open>events\<close>,
  the ref \<^verbatim>\<open>metadataFetched\<close> (a \<^verbatim>\<open>Record<string, boolean>\<close>, keyed by the public keys
  of events that the relay pool has validated) and \<^verbatim>\<open>hashtags\<close>. The last field is the
  log of an effect: the \<^verbatim>\<open>authors\<close> list of every metadata subscription (\<^verbatim>\<open>kinds: [0]\<close>)
  opened so far, oldest first.
\<close>

datatype simple_pool = SimplePool

record app_state =
  pool :: "simple_pool option"
  eventsImmediate :: feed
  events :: feed
  metadataFetched :: "string \<rightharpoonup> bool"
  hashtags :: "string list"
  metadata_subs :: "string list list"

definition app_init :: app_state where
  "app_init = \<lparr>pool = None, eventsImmediate = [], events = [], metadataFetched = Map.empty,
                hashtags = [], metadata_subs = []\<rparr>"

text \<open>
  The subscription effect (\<^verbatim>\<open>App.tsx\<close>, lines 69 to 88), run whenever \<^verbatim>\<open>hashtags\<close> or
  \<^verbatim>\<open>pool\<close> changes: without a pool it returns at once, otherwise it empties the feed and
  subscribes.
\<close>

definition subscribe_effect :: "app_state \<Rightarrow> app_state" where
  "subscribe_effect s = (if pool s = None then s else s\<lparr>eventsImmediate := []\<rparr>)"

text \<open>The callback of the subscription (lines 81 to 83).\<close>

definition on_event :: "event \<Rightarrow> app_state \<Rightarrow> app_state" where
  "on_event e s = s\<lparr>eventsImmediate := insertEventIntoDescendingList (eventsImmediate s) e\<rparr>"

text \<open>
  The metadata effect (lines 90 to 122), run whenever the debounced \<^verbatim>\<open>events\<close> or \<^verbatim>\<open>pool\<close>
  changes: the public keys of the events not yet marked are collected (the filter runs
  before any key is marked), each is marked, and one subscription is opened for them.
\<close>

definition pubkeysToFetch :: "app_state \<Rightarrow> string list" where
  "pubkeysToFetch s =
     map pubkey (filter (\<lambda>e. metadataFetched s (pubkey e) \<noteq> Some True) (events s))"

definition metadata_effect :: "app_state \<Rightarrow> app_state" where
  "metadata_effect s =
     (if pool s = None then s
      else s\<lparr>metadataFetched :=
                 foldl (\<lambda>fetched pk. fetched(pk \<mapsto> True)) (metadataFetched s) (pubkeysToFetch s),
               metadata_subs := metadata_subs s @ [pubkeysToFetch s]\<rparr>)"

text \<open>
  What can happen to the component: the mount effect stores the pool (both effects depend
  on it and run again); the hashtags change (the subscription effect runs again); the
  current subscription delivers an event (there is a subscription only once there is a
  pool); the debounce hands \<^verbatim>\<open>eventsImmediate\<close> over as \<^verbatim>\<open>events\<close> (the metadata effect runs
  again).
\<close>

datatype app_action =
    PoolCreated
  | HashtagsChanged "string list"
  | EventArrived event
  | Debounced

fun app_step :: "app_state \<Rightarrow> app_action \<Rightarrow> app_state" where
  "app_step s PoolCreated = metadata_effect (subscribe_effect (s\<lparr>pool := Some SimplePool\<rparr>))"
| "app_step s (HashtagsChanged hs) = subscribe_effect (s\<lparr>hashtags := hs\<rparr>)"
| "app_step s (EventArrived e) = (if pool s = None then s else on_event e s)"
| "app_step s Debounced = metadata_effect (s\<lparr>events := eventsImmediate s\<rparr>)"

definition run_app :: "app_state \<Rightarrow> app_action list \<Rightarrow> app_state" where
  "run_app s acts = foldl app_step s acts"

text \<open>In how many of the metadata subscriptions opened so far a public key is asked for.\<close>

definition times_requested :: "string \<Rightarrow> app_state \<Rightarrow> nat" where
  "times_requested k s = length (filter (\<lambda>authors. k \<in> set authors) (metadata_subs s))"

text \<open>
  The invariant behind the deduplication: a key that some subscription has asked for is
  marked, and no key has been asked for by more than one subscription.
\<close>

definition fetch_inv :: "app_state \<Rightarrow> bool" where
  "fetch_inv s =
     ((\<forall>k. 0 < times_requested k s \<longrightarrow> metadataFetched s k = Some True) \<and>
      (\<forall>k. times_requested k s \<le> 1))"

text \<open>An event of the examples with its author: id, public key, timestamp.\<close>

definition authored :: "string \<Rightarrow> string \<Rightarrow> int \<Rightarrow> event" where
  "authored i pk ts = (item i ts)\<lparr>pubkey := pk\<rparr>"

section \<open>The CreateNote component\<close>

text \<open>
  A call into the JavaScript runtime, the signer extension or the nostr library either
  throws (or rejects its promise) or returns a value; the model takes the outcome of each
  such call as an input.
\<close>

datatype 'a outcome = Threw | Returned 'a

text \<open>
  The values \<^verbatim>\<open>JSON.parse\<close> returns. The type \<^verbatim>\<open>string[]\<close> that the component declares
  for \<^verbatim>\<open>savedNotes\<close> is erased at run time and \<^verbatim>\<open>JSON.parse\<close> returns \<^verbatim>\<open>any\<close>, so the state
  can hold any of them. Numbers are never inspected by the component and are kept
  abstract.
\<close>

typedecl js_number

datatype json =
    JNull
  | JBool bool
  | JNumber js_number
  | JString string
  | JArray "json list"
  | JObject "(string \<times> json) list"

fun is_string :: "json \<Rightarrow> bool" where
  "is_string (JString _) = True"
| "is_string _ = False"

fun is_string_array :: "json \<Rightarrow> bool" where
  "is_string_array (JArray notes) = list_all is_string notes"
| "is_string_array _ = False"

text \<open>
  The state of \<^verbatim>\<open>CreateNote\<close>: its three hooks, and the messages shown with
  \<^verbatim>\<open>window.alert\<close> so far, oldest first.
\<close>

record note_state =
  input :: string
  savedNotes :: json
  editedNoteIndex :: "nat option"
  alerts :: "string list"

datatype js_error = TypeError

text \<open>
  \<^verbatim>\<open>handleDelete\<close> (lines 95 to 107). \<^verbatim>\<open>savedNotes.filter\<close> exists on arrays only; on any
  other value the call is a \<^verbatim>\<open>TypeError\<close>.
\<close>

definition handleDelete :: "nat \<Rightarrow> note_state \<Rightarrow> js_error + note_state" where
  "handleDelete indexToDelete s =
     (if editedNoteIndex s \<noteq> None \<and> editedNoteIndex s = Some indexToDelete
      then Inr (s\<lparr>editedNoteIndex := None, input := []\<rparr>)
      else
        (case savedNotes s of
           JArray notes \<Rightarrow>
             let updatedNotes =
                   map snd (filter (\<lambda>(index, _). index \<noteq> indexToDelete) (enumerate 0 notes))
             in Inr (s\<lparr>savedNotes := JArray updatedNotes\<rparr>)
         | _ \<Rightarrow> Inl TypeError))"

text \<open>
  The \<^verbatim>\<open>onload\<close> callback of \<^verbatim>\<open>handleRestore\<close> (lines 133 to 141). Its argument is what
  \<^verbatim>\<open>JSON.parse(content)\<close> did on the text of the chosen file.
\<close>

definition handleRestore_onload :: "json outcome \<Rightarrow> note_state \<Rightarrow> note_state" where
  "handleRestore_onload parsed s =
     (case parsed of
        Returned parsedNotes \<Rightarrow> s\<lparr>savedNotes := parsedNotes\<rparr>
      | Threw \<Rightarrow> s\<lparr>alerts := alerts s @ [''Invalid JSON file.'']\<rparr>)"

text \<open>
  What the surroundings do during one call of \<^verbatim>\<open>handlePublish\<close>: whether \<^verbatim>\<open>window.nostr\<close>
  exists, the answer to \<^verbatim>\<open>window.confirm\<close>, the clock in seconds, and the outcomes of the
  signer's \<^verbatim>\<open>getPublicKey\<close>, of reading \<^verbatim>\<open>.sig\<close> off the signer's \<^verbatim>\<open>signEvent\<close>, and of the
  library's \<^verbatim>\<open>getEventHash\<close>.
\<close>

record publish_env =
  nostr_present :: bool
  confirmPublish :: bool
  now_seconds :: int
  getPublicKey :: "string outcome"
  signEvent :: "string outcome"
  getEventHash :: "string outcome"

text \<open>
  A publication in flight: the event handed to \<^verbatim>\<open>pool.publish\<close> and the variable
  \<^verbatim>\<open>clearedInput\<close> that the \<^verbatim>\<open>ok\<close> listener closes over.
\<close>

record publication =
  published :: event
  clearedInput :: bool

text \<open>The \<^verbatim>\<open>catch\<close> block of \<^verbatim>\<open>handlePublish\<close> (lines 78 to 80): an alert, nothing published.\<close>

definition rejected :: "note_state \<Rightarrow> note_state \<times> publication option" where
  "rejected s = (s\<lparr>alerts := alerts s @ [''User rejected operation'']\<rparr>, None)"

text \<open>
  \<^verbatim>\<open>handlePublish\<close> (lines 30 to 81). Every exception inside the \<^verbatim>\<open>try\<close> block reaches the
  one \<^verbatim>\<open>catch\<close>. \<^verbatim>\<open>pool.publish\<close> returns the handle on which the listener is registered,
  with \<^verbatim>\<open>clearedInput\<close> still false.
\<close>

definition handlePublish ::
  "publish_env \<Rightarrow> string list \<Rightarrow> note_state \<Rightarrow> note_state \<times> publication option" where
  "handlePublish env hashtags_prop s =
     (if \<not> nostr_present env then (s\<lparr>alerts := alerts s @ [''Nostr extension not found'']\<rparr>, None)
      else if \<not> confirmPublish env then (s, None)
      else
        (case getPublicKey env of
           Threw \<Rightarrow> rejected s
         | Returned pk \<Rightarrow>
             (case signEvent env of
                Threw \<Rightarrow> rejected s
              | Returned sg \<Rightarrow>
                  (case getEventHash env of
                     Threw \<Rightarrow> rejected s
                   | Returned h \<Rightarrow>
                       (s, Some \<lparr>published =
                                  \<lparr>id_ev = h, pubkey = pk, created_at = now_seconds env,
                                   kind = 1, tags = map (\<lambda>hashtag. [''t'', hashtag]) hashtags_prop,
                                   content = input s, sig = sg\<rparr>,
                                clearedInput = False\<rparr>)))))"

text \<open>The \<^verbatim>\<open>ok\<close> listener (lines 71 to 77), on the publication and the component state.\<close>

definition on_ok :: "publication \<times> note_state \<Rightarrow> publication \<times> note_state" where
  "on_ok ps =
     (if clearedInput (fst ps) then ps
      else (fst ps\<lparr>clearedInput := True\<rparr>, snd ps\<lparr>input := [], editedNoteIndex := None\<rparr>))"

text \<open>
  What can happen while a publication is in flight: a relay acknowledges the event (the
  listener runs), a relay refuses it or cannot be reached (no listener is registered for
  that), the user types into the text area (\<^verbatim>\<open>onChange\<close> stores the text).
\<close>

datatype note_event = RelayOk | RelayFailed | InputChanged string

fun publish_step :: "publication \<times> note_state \<Rightarrow> note_event \<Rightarrow> publication \<times> note_state" where
  "publish_step ps RelayOk = on_ok ps"
| "publish_step ps RelayFailed = ps"
| "publish_step ps (InputChanged v) = (fst ps, snd ps\<lparr>input := v\<rparr>)"

definition publish_run ::
  "publication \<times> note_state \<Rightarrow> note_event list \<Rightarrow> publication \<times> note_state" where
  "publish_run ps evs = foldl publish_step ps evs"

text \<open>A component state for the examples: two saved drafts, some text typed, note 0 being edited.\<close>

definition note_example :: note_state where
  "note_example = \<lparr>input = ''hello'', savedNotes = JArray [JString ''draft'', JString ''second''],
                    editedNoteIndex = Some 0, alerts = []\<rparr>"

text \<open>
  Two courses of one \<^verbatim>\<open>handlePublish\<close> call for the examples: the signer declines to sign,
  and the signer signs.
\<close>

definition env_signer_rejects :: publish_env where
  "env_signer_rejects = \<lparr>nostr_present = True, confirmPublish = True, now_seconds = 1700000000,
      getPublicKey = Returned ''pk'', signEvent = Threw, getEventHash = Returned ''h''\<rparr>"

definition env_signer_signs :: publish_env where
  "env_signer_signs = \<lparr>nostr_present = True, confirmPublish = True, now_seconds = 1700000000,
      getPublicKey = Returned ''pk'', signEvent = Returned ''sg'', getEventHash = Returned ''h''\<rparr>"

definition publication_example :: publication where
  "publication_example =
     \<lparr>published = \<lparr>id_ev = ''h'', pubkey = ''pk'', created_at = 1700000000, kind = 1,
                    tags = [[''t'', ''nostr'']], content = ''hello'', sig = ''sg''\<rparr>,
      clearedInput = False\<rparr>"

section \<open>Properties of the insertion\<close>

lemma set_scan_insert: "set (scan_insert feed x) = insert x (set feed)"
  by (induction feed) auto

lemma id_in_insertEvent:
  "id_ev x \<in> set (map id_ev (insertEventIntoDescendingList feed x))"
  by (simp add: insertEventIntoDescendingList_def set_scan_insert)

lemma insertEvent_same_id:
  "id_ev y = id_ev x \<Longrightarrow>
   insertEventIntoDescendingList (insertEventIntoDescendingList feed x) y =
   insertEventIntoDescendingList feed x"
  using id_in_insertEvent [of x feed]
  by (simp add: insertEventIntoDescendingList_def [of "insertEventIntoDescendingList feed x"])

text \<open>
  C1. If the id of the arriving item already occurs anywhere in the feed, the insertion
  returns the feed itself: same content, same order, the incoming duplicate discarded. It
  follows that inserting an item a second time (any item carrying the same id) gives the
  feed that inserting it once gives. Neither fact needs the feed invariants, so both hold
  in particular for every feed that satisfies them.
\<close>

theorem insert_duplicate_noop:
  "(id_ev x \<in> set (map id_ev feed) \<longrightarrow> insertEventIntoDescendingList feed x = feed) \<and>
   (id_ev y = id_ev x \<longrightarrow>
      insertEventIntoDescendingList (insertEventIntoDescendingList feed x) y =
      insertEventIntoDescendingList feed x)"
  by (simp add: insertEvent_same_id) (simp add: insertEventIntoDescendingList_def)

theorem insert_duplicate_noop_witness:
  "id_ev (item ''2'' 200) \<in> set (map id_ev [item ''1'' 300, item ''2'' 200, item ''3'' 100]) \<and>
   insertEventIntoDescendingList [item ''1'' 300, item ''2'' 200, item ''3'' 100] (item ''2'' 200)
     = [item ''1'' 300, item ''2'' 200, item ''3'' 100] \<and>
   insertEventIntoDescendingList
     (insertEventIntoDescendingList [item ''1'' 300, item ''3'' 100] (item ''2'' 200))
     (item ''2'' 200)
     = insertEventIntoDescendingList [item ''1'' 300, item ''3'' 100] (item ''2'' 200)"
  using insert_duplicate_noop [of "item ''2'' 200"
      "[item ''1'' 300, item ''2'' 200, item ''3'' 100]" "item ''2'' 200"]
    insert_duplicate_noop [of "item ''2'' 200" "[item ''1'' 300, item ''3'' 100]" "item ''2'' 200"]
  by (simp add: item_def)


lemma descending_scan_insert:
  "descending feed \<Longrightarrow> descending (scan_insert feed x)"
  unfolding descending_def
  by (induction feed) (auto simp: set_scan_insert)

lemma unique_ids_scan_insert:
  "id_ev x \<notin> set (map id_ev feed) \<Longrightarrow> unique_ids feed \<Longrightarrow> unique_ids (scan_insert feed x)"
  unfolding unique_ids_def
  by (induction feed) (auto simp: set_scan_insert)

lemma descending_insertEvent:
  "descending feed \<Longrightarrow> descending (insertEventIntoDescendingList feed x)"
  by (simp add: insertEventIntoDescendingList_def descending_scan_insert)

lemma unique_ids_insertEvent:
  "unique_ids feed \<Longrightarrow> unique_ids (insertEventIntoDescendingList feed x)"
  by (simp add: insertEventIntoDescendingList_def unique_ids_scan_insert)

lemma ingest_invariants:
  "descending feed \<Longrightarrow> unique_ids feed \<Longrightarrow>
   descending (ingest feed arrivals) \<and> unique_ids (ingest feed arrivals)"
  unfolding ingest_def
  by (induction arrivals arbitrary: feed)
     (simp_all add: descending_insertEvent unique_ids_insertEvent)

lemma descending_adjacent:
  "descending feed \<Longrightarrow> Suc i < length feed \<Longrightarrow> created_at (feed ! Suc i) \<le> created_at (feed ! i)"
  unfolding descending_def by (simp add: sorted_wrt_iff_nth_less)

text \<open>
  C2. Whatever items arrive, in whatever order, and however many of them (\<open>n\<close>) have been
  inserted so far into the initially empty feed: every adjacent pair of the feed has the
  earlier element's timestamp at least the later one's, and no two elements share an id.
\<close>

theorem ingest_sorted_unique:
  "(\<forall>i. Suc i < length (ingest [] (take n arrivals)) \<longrightarrow>
        created_at (ingest [] (take n arrivals) ! Suc i)
          \<le> created_at (ingest [] (take n arrivals) ! i)) \<and>
   distinct (map id_ev (ingest [] (take n arrivals)))"
proof -
  have inv: "descending (ingest [] (take n arrivals)) \<and> unique_ids (ingest [] (take n arrivals))"
    by (rule ingest_invariants) (simp_all add: descending_def unique_ids_def)
  show ?thesis
    using inv descending_adjacent [of "ingest [] (take n arrivals)"]
    by (simp add: unique_ids_def)
qed

theorem ingest_sorted_unique_witness:
  "Suc 0 < length (ingest [] (take 3 [item ''a'' 50, item ''b'' 200, item ''c'' 100])) \<and>
   created_at (ingest [] (take 3 [item ''a'' 50, item ''b'' 200, item ''c'' 100]) ! Suc 0)
     \<le> created_at (ingest [] (take 3 [item ''a'' 50, item ''b'' 200, item ''c'' 100]) ! 0) \<and>
   ingest [] (take 3 [item ''a'' 50, item ''b'' 200, item ''c'' 100])
     = [item ''b'' 200, item ''c'' 100, item ''a'' 50] \<and>
   distinct (map id_ev (ingest [] (take 3 [item ''a'' 50, item ''b'' 200, item ''c'' 100])))"
  using ingest_sorted_unique [of 3 "[item ''a'' 50, item ''b'' 200, item ''c'' 100]"]
  by (simp add: ingest_def insertEventIntoDescendingList_def item_def)

lemma scan_insert_takeWhile:
  "scan_insert feed x =
     takeWhile (\<lambda>a. created_at x \<le> created_at a) feed @
     x # dropWhile (\<lambda>a. created_at x \<le> created_at a) feed"
  by (induction feed) auto

lemma descending_takeWhile_filter:
  "descending feed \<Longrightarrow>
   takeWhile (\<lambda>a. t \<le> created_at a) feed = filter (\<lambda>a. t \<le> created_at a) feed \<and>
   dropWhile (\<lambda>a. t \<le> created_at a) feed = filter (\<lambda>a. created_at a < t) feed"
  unfolding descending_def
proof (induction feed)
  case Nil
  then show ?case by simp
next
  case (Cons b feed)
  show ?case
  proof (cases "t \<le> created_at b")
    case True
    with Cons show ?thesis by auto
  next
    case False
    with Cons.prems have "\<forall>a \<in> set feed. created_at a < t" by auto
    then have "filter (\<lambda>a. t \<le> created_at a) feed = []"
      and "filter (\<lambda>a. created_at a < t) feed = feed"
      by (auto simp: filter_empty_conv filter_id_conv)
    with False show ?thesis by simp
  qed
qed


text \<open>
  C3. A new item (one whose id is not in the feed) lands immediately before the first
  resident item with a strictly smaller timestamp: everything in front of it is the
  longest prefix of items whose timestamp is not smaller, everything behind it starts with
  a strictly smaller one. In a descending feed this puts every resident item with the same
  timestamp in front of the new one. So A (id 1, ts 100) then B (id 2, ts 100) gives
  [A, B], and C (id 3, ts 100) after them gives [A, B, C].
\<close>

theorem insert_tie_position:
  "(id_ev x \<notin> set (map id_ev feed) \<longrightarrow>
      insertEventIntoDescendingList feed x =
        takeWhile (\<lambda>a. created_at x \<le> created_at a) feed @
        x # dropWhile (\<lambda>a. created_at x \<le> created_at a) feed) \<and>
   (id_ev x \<notin> set (map id_ev feed) \<and> descending feed \<longrightarrow>
      insertEventIntoDescendingList feed x =
        filter (\<lambda>a. created_at x \<le> created_at a) feed @
        x # filter (\<lambda>a. created_at a < created_at x) feed) \<and>
   ingest [] [item ''1'' 100, item ''2'' 100] = [item ''1'' 100, item ''2'' 100] \<and>
   insertEventIntoDescendingList [item ''1'' 100, item ''2'' 100] (item ''3'' 100) =
     [item ''1'' 100, item ''2'' 100, item ''3'' 100]"
proof -
  have general: "id_ev x \<notin> set (map id_ev feed) \<Longrightarrow>
      insertEventIntoDescendingList feed x =
        takeWhile (\<lambda>a. created_at x \<le> created_at a) feed @
        x # dropWhile (\<lambda>a. created_at x \<le> created_at a) feed"
    by (simp add: insertEventIntoDescendingList_def scan_insert_takeWhile)
  have sorted_case: "id_ev x \<notin> set (map id_ev feed) \<Longrightarrow> descending feed \<Longrightarrow>
      insertEventIntoDescendingList feed x =
        filter (\<lambda>a. created_at x \<le> created_at a) feed @
        x # filter (\<lambda>a. created_at a < created_at x) feed"
    using general descending_takeWhile_filter [of feed "created_at x"] by simp
  have ab: "ingest [] [item ''1'' 100, item ''2'' 100] = [item ''1'' 100, item ''2'' 100]"
    by (simp add: ingest_def insertEventIntoDescendingList_def item_def)
  have abc: "insertEventIntoDescendingList [item ''1'' 100, item ''2'' 100] (item ''3'' 100) =
     [item ''1'' 100, item ''2'' 100, item ''3'' 100]"
    by (simp add: insertEventIntoDescendingList_def item_def)
  from general sorted_case ab abc show ?thesis by blast
qed

theorem insert_tie_position_witness:
  "id_ev (item ''3'' 100) \<notin> set (map id_ev [item ''1'' 100, item ''2'' 100, item ''0'' 50]) \<and>
   descending [item ''1'' 100, item ''2'' 100, item ''0'' 50] \<and>
   insertEventIntoDescendingList [item ''1'' 100, item ''2'' 100, item ''0'' 50] (item ''3'' 100)
     = [item ''1'' 100, item ''2'' 100, item ''3'' 100, item ''0'' 50]"
  using insert_tie_position [of "item ''3'' 100" "[item ''1'' 100, item ''2'' 100, item ''0'' 50]"]
  by (simp add: item_def descending_def)

section \<open>Properties of the App component\<close>

lemma set_insertEvent_subset:
  "set (insertEventIntoDescendingList feed x) \<subseteq> insert x (set feed)"
  by (auto simp: insertEventIntoDescendingList_def set_scan_insert)

lemma app_step_no_pool:
  "pool s = None \<longrightarrow> eventsImmediate s = [] \<Longrightarrow>
   pool (app_step s a) = None \<longrightarrow> eventsImmediate (app_step s a) = []"
  by (cases a) (auto simp: subscribe_effect_def metadata_effect_def on_event_def)

lemma run_app_no_pool:
  "pool s = None \<longrightarrow> eventsImmediate s = [] \<Longrightarrow>
   pool (run_app s acts) = None \<longrightarrow> eventsImmediate (run_app s acts) = []"
  unfolding run_app_def
proof (induction acts arbitrary: s)
  case Nil
  then show ?case by simp
next
  case (Cons a acts)
  from Cons.prems have "pool (app_step s a) = None \<longrightarrow> eventsImmediate (app_step s a) = []"
    by (rule app_step_no_pool)
  then show ?case using Cons.IH by simp
qed

lemma run_app_append: "run_app s (xs @ ys) = run_app (run_app s xs) ys"
  by (simp add: run_app_def)

lemma run_app_Cons: "run_app s (a # acts) = run_app (app_step s a) acts"
  by (simp add: run_app_def)

lemma reset_empties:
  "pool s = None \<longrightarrow> eventsImmediate s = [] \<Longrightarrow>
   eventsImmediate (app_step s (HashtagsChanged hs)) = []"
  by (simp add: subscribe_effect_def)

lemma pool_HashtagsChanged: "pool (app_step s (HashtagsChanged hs)) = pool s"
  by (simp add: subscribe_effect_def)

lemma run_app_arrivals:
  "run_app s (map EventArrived arrivals) =
     (if pool s = None then s
      else s\<lparr>eventsImmediate := ingest (eventsImmediate s) arrivals\<rparr>)"
  unfolding run_app_def ingest_def
  by (induction arrivals arbitrary: s) (simp_all add: on_event_def)

lemma app_step_feed_subset:
  "set (eventsImmediate (app_step s a)) \<subseteq> set (eventsImmediate s) \<union> {e. a = EventArrived e}"
  using set_insertEvent_subset
  by (cases a) (auto simp: subscribe_effect_def metadata_effect_def on_event_def)

lemma run_app_feed_subset:
  "set (eventsImmediate (run_app s acts)) \<subseteq>
     set (eventsImmediate s) \<union> {e. EventArrived e \<in> set acts}"
  unfolding run_app_def
proof (induction acts arbitrary: s)
  case Nil
  then show ?case by simp
next
  case (Cons a acts)
  have "set (eventsImmediate (foldl app_step (app_step s a) acts)) \<subseteq>
      set (eventsImmediate (app_step s a)) \<union> {e. EventArrived e \<in> set acts}"
    by (rule Cons.IH)
  with app_step_feed_subset [of s a] show ?case by auto
qed

text \<open>
  C5. Whatever happened before, when the hashtags change the feed is empty at once: nothing
  of the previous epoch is carried over and the new epoch starts from the empty feed.
  Events arriving afterwards build the feed from the empty feed, so whatever happens later
  the feed holds only events that arrived after the change. (Before the pool exists there
  is no subscription, the effect returns early, and the feed is empty anyway.) Arrivals
  with timestamps 10 and 20, then a change of hashtags, then an arrival with timestamp 5
  leave exactly the last item in the feed.
\<close>

theorem epoch_reset:
  "eventsImmediate (run_app app_init (history @ [HashtagsChanged hs])) = [] \<and>
   eventsImmediate (run_app app_init (history @ HashtagsChanged hs # map EventArrived arrivals)) =
     (if pool (run_app app_init history) = None then [] else ingest [] arrivals) \<and>
   set (eventsImmediate (run_app app_init (history @ HashtagsChanged hs # later))) \<subseteq>
     {e. EventArrived e \<in> set later} \<and>
   eventsImmediate (run_app app_init
      [PoolCreated, EventArrived (item ''a'' 10), EventArrived (item ''b'' 20),
       HashtagsChanged [''nostr''], EventArrived (item ''c'' 5)]) = [item ''c'' 5]"
proof -
  let ?s = "run_app app_init history"
  let ?r = "app_step ?s (HashtagsChanged hs)"
  have inv: "pool ?s = None \<longrightarrow> eventsImmediate ?s = []"
    by (rule run_app_no_pool) (simp add: app_init_def)
  have empty: "eventsImmediate ?r = []"
    using inv by (rule reset_empties)
  have reset: "eventsImmediate (run_app app_init (history @ [HashtagsChanged hs])) = []"
    using empty by (simp add: run_app_append run_app_Cons run_app_def)
  have fresh: "eventsImmediate (run_app app_init (history @ HashtagsChanged hs # map EventArrived arrivals)) =
     (if pool ?s = None then [] else ingest [] arrivals)"
    using empty pool_HashtagsChanged [of ?s hs]
    by (simp add: run_app_append run_app_Cons run_app_arrivals)
  have only_new: "set (eventsImmediate (run_app app_init (history @ HashtagsChanged hs # later))) \<subseteq>
     {e. EventArrived e \<in> set later}"
    using run_app_feed_subset [of ?r later] empty
    by (simp add: run_app_append run_app_Cons)
  have example: "eventsImmediate (run_app app_init
      [PoolCreated, EventArrived (item ''a'' 10), EventArrived (item ''b'' 20),
       HashtagsChanged [''nostr''], EventArrived (item ''c'' 5)]) = [item ''c'' 5]"
    by (simp add: run_app_def app_init_def subscribe_effect_def metadata_effect_def on_event_def
        insertEventIntoDescendingList_def item_def)
  from reset fresh only_new example show ?thesis by simp
qed

theorem epoch_reset_witness:
  "eventsImmediate (run_app app_init
      ([PoolCreated, EventArrived (item ''a'' 10), EventArrived (item ''b'' 20)] @
       [HashtagsChanged [''nostr'']])) = [] \<and>
   eventsImmediate (run_app app_init [PoolCreated, EventArrived (item ''a'' 10), EventArrived (item ''b'' 20)])
     = [item ''b'' 20, item ''a'' 10]"
  using epoch_reset [of "[PoolCreated, EventArrived (item ''a'' 10), EventArrived (item ''b'' 20)]"
      "[''nostr'']" "[]" "[]"]
  by (simp add: run_app_def app_init_def subscribe_effect_def metadata_effect_def on_event_def
        insertEventIntoDescendingList_def item_def)

lemma foldl_mark:
  "foldl (\<lambda>fetched pk. fetched(pk \<mapsto> True)) m ks k = (if k \<in> set ks then Some True else m k)"
  by (induction ks arbitrary: m) auto

lemma metadata_effect_unfold:
  "pool s \<noteq> None \<Longrightarrow>
   metadata_subs (metadata_effect s) = metadata_subs s @ [pubkeysToFetch s] \<and>
   metadataFetched (metadata_effect s) k =
     (if k \<in> set (pubkeysToFetch s) then Some True else metadataFetched s k)"
  by (simp add: metadata_effect_def pubkeysToFetch_def Let_def foldl_mark)

lemma metadata_effect_no_pool: "pool s = None \<Longrightarrow> metadata_effect s = s"
  by (simp add: metadata_effect_def)

lemma pubkeysToFetch_unmarked: "k \<in> set (pubkeysToFetch s) \<Longrightarrow> metadataFetched s k \<noteq> Some True"
  by (auto simp: pubkeysToFetch_def)

lemma pubkeysToFetch_covers:
  "k \<in> set (map pubkey (events s)) \<Longrightarrow> metadataFetched s k \<noteq> Some True \<Longrightarrow> k \<in> set (pubkeysToFetch s)"
  by (auto simp: pubkeysToFetch_def)

lemma fetch_inv_metadata_effect:
  assumes "fetch_inv s"
  shows "fetch_inv (metadata_effect s)"
proof (cases "pool s = None")
  case True
  with assms show ?thesis by (simp add: metadata_effect_no_pool)
next
  case False
  note eff = metadata_effect_unfold [OF False]
  have count: "times_requested k (metadata_effect s) =
      times_requested k s + (if k \<in> set (pubkeysToFetch s) then 1 else 0)" for k
    using eff by (simp add: times_requested_def)
  have fresh: "times_requested k s = 0" if "k \<in> set (pubkeysToFetch s)" for k
    using assms pubkeysToFetch_unmarked [OF that] unfolding fetch_inv_def by fastforce
  show ?thesis
    unfolding fetch_inv_def
  proof (intro conjI allI impI)
    fix k
    assume "0 < times_requested k (metadata_effect s)"
    then show "metadataFetched (metadata_effect s) k = Some True"
      using assms eff count [of k] unfolding fetch_inv_def by (auto split: if_splits)
  next
    fix k
    show "times_requested k (metadata_effect s) \<le> 1"
      using assms count [of k] fresh [of k] unfolding fetch_inv_def by (auto split: if_splits)
  qed
qed

lemma fetch_inv_fields:
  "metadataFetched t = metadataFetched s \<Longrightarrow> metadata_subs t = metadata_subs s \<Longrightarrow>
   fetch_inv t = fetch_inv s"
  by (simp add: fetch_inv_def times_requested_def)

lemma fetch_inv_app_step: "fetch_inv s \<Longrightarrow> fetch_inv (app_step s a)"
proof (cases a)
  case PoolCreated
  assume "fetch_inv s"
  then have "fetch_inv (subscribe_effect (s\<lparr>pool := Some SimplePool\<rparr>))"
    using fetch_inv_fields [of "subscribe_effect (s\<lparr>pool := Some SimplePool\<rparr>)" s]
    by (simp add: subscribe_effect_def)
  then show ?thesis using PoolCreated by (simp add: fetch_inv_metadata_effect)
next
  case (HashtagsChanged hs)
  assume "fetch_inv s"
  then show ?thesis
    using HashtagsChanged fetch_inv_fields [of "subscribe_effect (s\<lparr>hashtags := hs\<rparr>)" s]
    by (simp add: subscribe_effect_def)
next
  case (EventArrived e)
  assume "fetch_inv s"
  then show ?thesis
    using EventArrived fetch_inv_fields [of "on_event e s" s]
    by (simp add: on_event_def)
next
  case Debounced
  assume "fetch_inv s"
  then have "fetch_inv (s\<lparr>events := eventsImmediate s\<rparr>)"
    using fetch_inv_fields [of "s\<lparr>events := eventsImmediate s\<rparr>" s] by simp
  then show ?thesis using Debounced by (simp add: fetch_inv_metadata_effect)
qed

lemma fetch_inv_run_app: "fetch_inv s \<Longrightarrow> fetch_inv (run_app s acts)"
  unfolding run_app_def
  by (induction acts arbitrary: s) (simp_all add: fetch_inv_app_step)

lemma fetch_inv_init: "fetch_inv app_init"
  by (simp add: fetch_inv_def times_requested_def app_init_def)

text \<open>Once marked, a key stays marked and no later subscription asks for it.\<close>

lemma metadata_effect_marked:
  assumes "metadataFetched s k = Some True"
  shows "\<exists>new. metadata_subs (metadata_effect s) = metadata_subs s @ new \<and>
           (\<forall>authors \<in> set new. k \<notin> set authors) \<and>
           metadataFetched (metadata_effect s) k = Some True"
proof (cases "pool s = None")
  case True
  with assms show ?thesis by (simp add: metadata_effect_no_pool)
next
  case False
  have "k \<notin> set (pubkeysToFetch s)"
    using assms pubkeysToFetch_unmarked [of k s] by blast
  with assms metadata_effect_unfold [OF False, of k] show ?thesis by simp
qed

lemma app_step_marked:
  assumes "metadataFetched s k = Some True"
  shows "\<exists>new. metadata_subs (app_step s a) = metadata_subs s @ new \<and>
           (\<forall>authors \<in> set new. k \<notin> set authors) \<and>
           metadataFetched (app_step s a) k = Some True"
proof (cases a)
  case PoolCreated
  have "metadataFetched (subscribe_effect (s\<lparr>pool := Some SimplePool\<rparr>)) k = Some True"
    using assms by (simp add: subscribe_effect_def)
  from metadata_effect_marked [OF this] PoolCreated show ?thesis
    by (simp add: subscribe_effect_def)
next
  case (HashtagsChanged hs)
  with assms show ?thesis by (simp add: subscribe_effect_def)
next
  case (EventArrived e)
  with assms show ?thesis by (simp add: on_event_def)
next
  case Debounced
  have "metadataFetched (s\<lparr>events := eventsImmediate s\<rparr>) k = Some True"
    using assms by simp
  from metadata_effect_marked [OF this] Debounced show ?thesis by simp
qed

lemma run_app_marked:
  "metadataFetched s k = Some True \<Longrightarrow>
   \<exists>new. metadata_subs (run_app s acts) = metadata_subs s @ new \<and>
         (\<forall>authors \<in> set new. k \<notin> set authors) \<and>
         metadataFetched (run_app s acts) k = Some True"
  unfolding run_app_def
proof (induction acts arbitrary: s)
  case Nil
  then show ?case by simp
next
  case (Cons a acts)
  from app_step_marked [OF Cons.prems, of a] obtain n1 where
    n1: "metadata_subs (app_step s a) = metadata_subs s @ n1"
      "\<forall>authors \<in> set n1. k \<notin> set authors"
      "metadataFetched (app_step s a) k = Some True"
    by blast
  from Cons.IH [OF n1(3)] obtain n2 where
    n2: "metadata_subs (foldl app_step (app_step s a) acts) = metadata_subs (app_step s a) @ n2"
      "\<forall>authors \<in> set n2. k \<notin> set authors"
      "metadataFetched (foldl app_step (app_step s a) acts) k = Some True"
    by blast
  have "metadata_subs (foldl app_step s (a # acts)) = metadata_subs s @ (n1 @ n2)"
    using n1(1) n2(1) by simp
  moreover have "\<forall>authors \<in> set (n1 @ n2). k \<notin> set authors"
    using n1(2) n2(2) by auto
  moreover have "metadataFetched (foldl app_step s (a # acts)) k = Some True"
    using n2(3) by simp
  ultimately show ?case by blast
qed

text \<open>
  C8. Over the whole life of the component, whatever the feed updates, every public key is
  asked for by at most one metadata subscription. Once a key is marked in
  \<^verbatim>\<open>metadataFetched\<close> it stays marked and every subscription opened later leaves it out; and
  a run of the effect marks every key of the events it sees. (Inside the one subscription
  that asks for it, a key is listed once per event of that author in the snapshot.)
\<close>

theorem metadata_fetched_once:
  "times_requested k (run_app app_init acts) \<le> 1 \<and>
   (metadataFetched s k = Some True \<longrightarrow>
      (\<forall>authors \<in> set (drop (length (metadata_subs s)) (metadata_subs (run_app s later))).
         k \<notin> set authors) \<and>
      metadataFetched (run_app s later) k = Some True) \<and>
   (pool s \<noteq> None \<and> k \<in> set (map pubkey (events s)) \<longrightarrow>
      metadataFetched (metadata_effect s) k = Some True)"
proof -
  have once: "times_requested k (run_app app_init acts) \<le> 1"
    using fetch_inv_run_app [OF fetch_inv_init, of acts] by (simp add: fetch_inv_def)
  have excluded: "(\<forall>authors \<in> set (drop (length (metadata_subs s)) (metadata_subs (run_app s later))).
         k \<notin> set authors) \<and> metadataFetched (run_app s later) k = Some True"
    if "metadataFetched s k = Some True"
    using run_app_marked [OF that, of later] by auto
  have marked: "metadataFetched (metadata_effect s) k = Some True"
    if "pool s \<noteq> None" and "k \<in> set (map pubkey (events s))"
    using metadata_effect_unfold [OF that(1), of k] pubkeysToFetch_covers [OF that(2)]
    by (cases "metadataFetched s k = Some True") auto
  from once excluded marked show ?thesis by blast
qed

theorem metadata_fetched_once_witness:
  "metadataFetched
     (run_app app_init [PoolCreated, EventArrived (authored ''1'' ''alice'' 10),
        EventArrived (authored ''2'' ''alice'' 20), Debounced]) ''alice'' = Some True \<and>
   pool
     (run_app app_init [PoolCreated, EventArrived (authored ''1'' ''alice'' 10),
        EventArrived (authored ''2'' ''alice'' 20), Debounced]) = Some SimplePool \<and>
   map pubkey (events
     (run_app app_init [PoolCreated, EventArrived (authored ''1'' ''alice'' 10),
        EventArrived (authored ''2'' ''alice'' 20), Debounced])) = [''alice'', ''alice''] \<and>
   metadata_subs
     (run_app app_init [PoolCreated, EventArrived (authored ''1'' ''alice'' 10),
        EventArrived (authored ''2'' ''alice'' 20), Debounced])
     = [[], [''alice'', ''alice'']] \<and>
   metadata_subs
     (run_app
        (run_app app_init [PoolCreated, EventArrived (authored ''1'' ''alice'' 10),
           EventArrived (authored ''2'' ''alice'' 20), Debounced])
        [EventArrived (authored ''3'' ''bob'' 30), Debounced, Debounced])
     = [[], [''alice'', ''alice''], [''bob''], []] \<and>
   times_requested ''alice''
     (run_app app_init [PoolCreated, EventArrived (authored ''1'' ''alice'' 10),
        EventArrived (authored ''2'' ''alice'' 20), Debounced,
        EventArrived (authored ''3'' ''bob'' 30), Debounced, Debounced]) \<le> 1"
  using metadata_fetched_once [of "''alice''"
      "[PoolCreated, EventArrived (authored ''1'' ''alice'' 10),
        EventArrived (authored ''2'' ''alice'' 20), Debounced,
        EventArrived (authored ''3'' ''bob'' 30), Debounced, Debounced]"
      "run_app app_init [PoolCreated, EventArrived (authored ''1'' ''alice'' 10),
        EventArrived (authored ''2'' ''alice'' 20), Debounced]"
      "[EventArrived (authored ''3'' ''bob'' 30), Debounced, Debounced]"]
  by (simp add: run_app_def app_init_def subscribe_effect_def metadata_effect_def on_event_def
        pubkeysToFetch_def insertEventIntoDescendingList_def authored_def item_def
        times_requested_def)

section \<open>Properties of the note editor\<close>

lemma filter_enumerate_above:
  "i < n \<Longrightarrow> map snd (filter (\<lambda>(index, _). index \<noteq> i) (enumerate n xs)) = xs"
  by (induction xs arbitrary: n) auto

lemma filter_enumerate_index:
  "n \<le> i \<Longrightarrow>
   map snd (filter (\<lambda>(index, _). index \<noteq> i) (enumerate n xs)) =
     take (i - n) xs @ drop (Suc (i - n)) xs"
proof (induction xs arbitrary: n)
  case Nil
  then show ?case by simp
next
  case (Cons a xs)
  show ?case
  proof (cases "n = i")
    case True
    then show ?thesis by (simp add: filter_enumerate_above)
  next
    case False
    with Cons.prems have lt: "Suc n \<le> i" by simp
    then have "i - n = Suc (i - Suc n)" by simp
    with Cons.IH [OF lt] False show ?thesis by simp
  qed
qed

lemma remove_index_changes:
  "(take i ns @ drop (Suc i) ns \<noteq> ns) = (i < length ns)"
proof (cases "i < length ns")
  case True
  then have "length (take i ns @ drop (Suc i) ns) \<noteq> length ns" by simp
  with True show ?thesis by metis
next
  case False
  then show ?thesis by simp
qed

text \<open>
  C9. Let the saved notes be a list. If the index to delete is the index being edited,
  \<^verbatim>\<open>handleDelete\<close> removes nothing: the notes stay as they are, and the edit is cancelled by
  clearing the input field and the edited index. Otherwise (another index is being edited,
  or none) the note at that index is removed. So the notes change only if the index differs
  from the edited one (and is an index of the list).
\<close>

theorem handleDelete_edited_note:
  "savedNotes s = JArray ns \<longrightarrow>
     (editedNoteIndex s = Some i \<longrightarrow>
        handleDelete i s = Inr (s\<lparr>editedNoteIndex := None, input := []\<rparr>) \<and>
        savedNotes (s\<lparr>editedNoteIndex := None, input := []\<rparr>) = JArray ns) \<and>
     (editedNoteIndex s \<noteq> Some i \<longrightarrow>
        handleDelete i s = Inr (s\<lparr>savedNotes := JArray (take i ns @ drop (Suc i) ns)\<rparr>)) \<and>
     (\<forall>s'. handleDelete i s = Inr s' \<longrightarrow>
        (savedNotes s' \<noteq> JArray ns) = (editedNoteIndex s \<noteq> Some i \<and> i < length ns))"
proof (intro impI)
  assume saved: "savedNotes s = JArray ns"
  have edited: "editedNoteIndex s = Some i \<Longrightarrow>
      handleDelete i s = Inr (s\<lparr>editedNoteIndex := None, input := []\<rparr>)"
    by (simp add: handleDelete_def)
  have other: "editedNoteIndex s \<noteq> Some i \<Longrightarrow>
      handleDelete i s = Inr (s\<lparr>savedNotes := JArray (take i ns @ drop (Suc i) ns)\<rparr>)"
    using filter_enumerate_index [of 0 i ns] by (simp add: handleDelete_def saved)
  have removed: "handleDelete i s = Inr s' \<Longrightarrow>
      (savedNotes s' \<noteq> JArray ns) = (editedNoteIndex s \<noteq> Some i \<and> i < length ns)" for s'
  proof (cases "editedNoteIndex s = Some i")
    case True
    assume "handleDelete i s = Inr s'"
    with edited [OF True] saved True show ?thesis by auto
  next
    case False
    assume "handleDelete i s = Inr s'"
    with other [OF False] False show ?thesis by (auto simp: remove_index_changes)
  qed
  from saved edited other removed
  show "(editedNoteIndex s = Some i \<longrightarrow>
        handleDelete i s = Inr (s\<lparr>editedNoteIndex := None, input := []\<rparr>) \<and>
        savedNotes (s\<lparr>editedNoteIndex := None, input := []\<rparr>) = JArray ns) \<and>
     (editedNoteIndex s \<noteq> Some i \<longrightarrow>
        handleDelete i s = Inr (s\<lparr>savedNotes := JArray (take i ns @ drop (Suc i) ns)\<rparr>)) \<and>
     (\<forall>s'. handleDelete i s = Inr s' \<longrightarrow>
        (savedNotes s' \<noteq> JArray ns) = (editedNoteIndex s \<noteq> Some i \<and> i < length ns))"
    by simp
qed

theorem handleDelete_edited_note_witness:
  "savedNotes note_example = JArray [JString ''draft'', JString ''second''] \<and>
   editedNoteIndex note_example = Some 0 \<and>
   handleDelete 0 note_example =
     Inr \<lparr>input = [], savedNotes = JArray [JString ''draft'', JString ''second''],
          editedNoteIndex = None, alerts = []\<rparr> \<and>
   editedNoteIndex note_example \<noteq> Some 1 \<and>
   handleDelete 1 note_example =
     Inr \<lparr>input = ''hello'', savedNotes = JArray [JString ''draft''],
          editedNoteIndex = Some 0, alerts = []\<rparr>"
  using handleDelete_edited_note [of note_example "[JString ''draft'', JString ''second'']" 0]
    handleDelete_edited_note [of note_example "[JString ''draft'', JString ''second'']" 1]
  by (simp add: note_example_def)

text \<open>
  C4, as stated, fails. The file content \<^verbatim>\<open>{}\<close> parses (to the empty object), which is not
  a sequence of strings; yet restoring it raises no invalid-file alert, and the saved notes
  of the example state do not stay as they were.
\<close>

theorem handleRestore_accepts_any_json:
  "\<not> is_string_array (JObject []) \<and>
   handleRestore_onload (Returned (JObject [])) note_example =
     \<lparr>input = ''hello'', savedNotes = JObject [], editedNoteIndex = Some 0, alerts = []\<rparr> \<and>
   savedNotes (handleRestore_onload (Returned (JObject [])) note_example)
     \<noteq> savedNotes note_example \<and>
   alerts (handleRestore_onload (Returned (JObject [])) note_example) = []"
  by (simp add: handleRestore_onload_def note_example_def)

text \<open>
  C4, amended. What is validated before acceptance is that the content parses as JSON.
  When parsing throws, the alert \<^verbatim>\<open>Invalid JSON file.\<close> is shown and the saved notes, the
  input and the edited index are unchanged. When parsing returns a sequence of strings, that
  sequence becomes the saved notes and no alert is shown.
\<close>

theorem handleRestore_checks_syntax_only:
  "handleRestore_onload Threw s = s\<lparr>alerts := alerts s @ [''Invalid JSON file.'']\<rparr> \<and>
   savedNotes (handleRestore_onload Threw s) = savedNotes s \<and>
   input (handleRestore_onload Threw s) = input s \<and>
   editedNoteIndex (handleRestore_onload Threw s) = editedNoteIndex s \<and>
   (is_string_array v \<longrightarrow>
      handleRestore_onload (Returned v) s = s\<lparr>savedNotes := v\<rparr> \<and>
      alerts (handleRestore_onload (Returned v) s) = alerts s)"
  by (simp add: handleRestore_onload_def)

theorem handleRestore_checks_syntax_only_witness:
  "is_string_array (JArray [JString ''one'', JString ''two'']) \<and>
   handleRestore_onload (Returned (JArray [JString ''one'', JString ''two''])) note_example =
     \<lparr>input = ''hello'', savedNotes = JArray [JString ''one'', JString ''two''],
      editedNoteIndex = Some 0, alerts = []\<rparr> \<and>
   handleRestore_onload Threw note_example =
     \<lparr>input = ''hello'', savedNotes = JArray [JString ''draft'', JString ''second''],
      editedNoteIndex = Some 0, alerts = [''Invalid JSON file.'']\<rparr>"
  using handleRestore_checks_syntax_only [of note_example "JArray [JString ''one'', JString ''two'']"]
  by (simp add: note_example_def)

text \<open>
  C6. When the extension is present, the user has confirmed, and the signer rejects (the
  request for the public key or the request to sign throws), \<^verbatim>\<open>handlePublish\<close> catches the
  error, shows the alert \<^verbatim>\<open>User rejected operation\<close>, publishes nothing, and leaves the input,
  the edited index and the saved notes as they were.
\<close>

theorem handlePublish_rejection_keeps_draft:
  "nostr_present env \<and> confirmPublish env \<and>
   (getPublicKey env = Threw \<or> signEvent env = Threw) \<longrightarrow>
     handlePublish env hs s = (s\<lparr>alerts := alerts s @ [''User rejected operation'']\<rparr>, None) \<and>
     input (fst (handlePublish env hs s)) = input s \<and>
     editedNoteIndex (fst (handlePublish env hs s)) = editedNoteIndex s \<and>
     savedNotes (fst (handlePublish env hs s)) = savedNotes s"
  by (auto simp: handlePublish_def rejected_def split: outcome.splits)

theorem handlePublish_rejection_keeps_draft_witness:
  "nostr_present env_signer_rejects \<and> confirmPublish env_signer_rejects \<and>
   signEvent env_signer_rejects = Threw \<and>
   handlePublish env_signer_rejects [''nostr''] note_example =
     (\<lparr>input = ''hello'', savedNotes = JArray [JString ''draft'', JString ''second''],
       editedNoteIndex = Some 0, alerts = [''User rejected operation'']\<rparr>, None)"
  using handlePublish_rejection_keeps_draft [of env_signer_rejects "[''nostr'']" note_example]
  by (simp add: env_signer_rejects_def note_example_def)

lemma on_ok_twice: "on_ok (on_ok ps) = on_ok ps"
  by (simp add: on_ok_def)

lemma cleared_on_ok: "clearedInput (fst (on_ok ps))"
  by (simp add: on_ok_def)

lemma on_ok_cleared: "clearedInput (fst ps) \<Longrightarrow> on_ok ps = ps"
  by (simp add: on_ok_def)

lemma publish_step_keeps_cleared:
  "clearedInput (fst ps) \<Longrightarrow> clearedInput (fst (publish_step ps e))"
  by (cases e) (simp_all add: on_ok_def)

lemma publish_run_replies:
  "\<forall>r \<in> set rs. r = RelayOk \<or> r = RelayFailed \<Longrightarrow>
   publish_run ps rs = (if RelayOk \<in> set rs then on_ok ps else ps)"
  unfolding publish_run_def
proof (induction rs arbitrary: ps)
  case Nil
  then show ?case by simp
next
  case (Cons r rs)
  then have IH: "\<And>qs. foldl publish_step qs rs = (if RelayOk \<in> set rs then on_ok qs else qs)"
    by simp
  from Cons.prems have "r = RelayOk \<or> r = RelayFailed" by simp
  then show ?case
    by (auto simp: IH on_ok_twice)
qed

lemma publish_run_keeps_cleared:
  "clearedInput (fst ps) \<Longrightarrow> clearedInput (fst (publish_run ps evs))"
  unfolding publish_run_def
  by (induction evs arbitrary: ps) (simp_all add: publish_step_keeps_cleared)

lemma publish_run_skips_ok:
  "clearedInput (fst ps) \<Longrightarrow>
   publish_run ps evs = publish_run ps (filter (\<lambda>e. e \<noteq> RelayOk) evs)"
  unfolding publish_run_def
proof (induction evs arbitrary: ps)
  case Nil
  then show ?case by simp
next
  case (Cons e evs)
  show ?case
  proof (cases "e = RelayOk")
    case True
    with Cons show ?thesis by (simp add: on_ok_cleared)
  next
    case False
    from Cons.prems have "clearedInput (fst (publish_step ps e))"
      by (rule publish_step_keeps_cleared)
    from Cons.IH [OF this] False show ?thesis by simp
  qed
qed

lemma handlePublish_fresh:
  "handlePublish env hs s = (s', Some p) \<Longrightarrow> \<not> clearedInput p \<and> s' = s"
  by (auto simp: handlePublish_def rejected_def split: outcome.splits if_splits)

text \<open>
  C7. After \<^verbatim>\<open>handlePublish\<close> has handed the event to the relays, the success action (input
  and edited index cleared) has happened as soon as one relay has acknowledged, however many
  relays failed before it; and for any run of acknowledgements and failures, one
  acknowledgement is enough, whatever the other relays do. Failures alone change nothing:
  no alert, no state change.
\<close>

theorem publish_succeeds_on_first_ok:
  "(handlePublish env hs s = (s', Some p) \<longrightarrow>
      publish_run (p, s') (replicate n RelayFailed @ [RelayOk]) =
        (p\<lparr>clearedInput := True\<rparr>, s\<lparr>input := [], editedNoteIndex := None\<rparr>)) \<and>
   (handlePublish env hs s = (s', Some p) \<and> RelayOk \<in> set rs \<and>
    (\<forall>r \<in> set rs. r = RelayOk \<or> r = RelayFailed) \<longrightarrow>
      publish_run (p, s') rs =
        (p\<lparr>clearedInput := True\<rparr>, s\<lparr>input := [], editedNoteIndex := None\<rparr>)) \<and>
   publish_run ps (replicate n RelayFailed) = ps"
proof -
  have fresh: "on_ok (p, s') = (p\<lparr>clearedInput := True\<rparr>, s\<lparr>input := [], editedNoteIndex := None\<rparr>)"
    if "handlePublish env hs s = (s', Some p)"
    using handlePublish_fresh [OF that] by (simp add: on_ok_def)
  have first: "publish_run qs (replicate n RelayFailed @ [RelayOk]) = on_ok qs" for qs
    using publish_run_replies [of "replicate n RelayFailed @ [RelayOk]" qs] by auto
  have any: "RelayOk \<in> set rs \<Longrightarrow> \<forall>r \<in> set rs. r = RelayOk \<or> r = RelayFailed \<Longrightarrow>
      publish_run qs rs = on_ok qs" for qs
    using publish_run_replies [of rs qs] by simp
  have fails: "publish_run ps (replicate n RelayFailed) = ps"
    using publish_run_replies [of "replicate n RelayFailed" ps] by auto
  from fresh first any fails show ?thesis by metis
qed

theorem publish_succeeds_on_first_ok_witness:
  "handlePublish env_signer_signs [''nostr''] note_example = (note_example, Some publication_example) \<and>
   publish_run (publication_example, note_example) [RelayFailed, RelayFailed, RelayOk] =
     (publication_example\<lparr>clearedInput := True\<rparr>,
      \<lparr>input = [], savedNotes = JArray [JString ''draft'', JString ''second''],
       editedNoteIndex = None, alerts = []\<rparr>) \<and>
   publish_run (publication_example, note_example) [RelayFailed, RelayOk, RelayFailed, RelayOk] =
     (publication_example\<lparr>clearedInput := True\<rparr>,
      \<lparr>input = [], savedNotes = JArray [JString ''draft'', JString ''second''],
       editedNoteIndex = None, alerts = []\<rparr>)"
proof -
  have published: "handlePublish env_signer_signs [''nostr''] note_example =
      (note_example, Some publication_example)"
    by (simp add: handlePublish_def env_signer_signs_def note_example_def publication_example_def)
  have replies: "RelayOk \<in> set [RelayFailed, RelayOk, RelayFailed, RelayOk] \<and>
      (\<forall>r \<in> set [RelayFailed, RelayOk, RelayFailed, RelayOk]. r = RelayOk \<or> r = RelayFailed)"
    by simp
  have two: "replicate 2 RelayFailed @ [RelayOk] = [RelayFailed, RelayFailed, RelayOk]"
    by (simp add: numeral_2_eq_2)
  show ?thesis
    using published replies two
      publish_succeeds_on_first_ok [where env = env_signer_signs and hs = "[''nostr'']"
        and s = note_example and s' = note_example and p = publication_example and n = 2
        and rs = "[RelayFailed, RelayOk, RelayFailed, RelayOk]"]
    by (simp add: note_example_def)
qed

text \<open>
  C10. The \<^verbatim>\<open>ok\<close> listener is idempotent. Two or more acknowledgements leave the state that
  the first one left. After the first acknowledgement, every later acknowledgement is a
  no-op, whatever else happens in between: the run equals the run with the later
  acknowledgements removed. In particular text typed after the first acknowledgement is
  still in the input field after any number of further acknowledgements.
\<close>

theorem ok_listener_runs_once:
  "on_ok (on_ok ps) = on_ok ps \<and>
   publish_run ps (replicate (Suc (Suc n)) RelayOk) = publish_run ps [RelayOk] \<and>
   publish_run (on_ok ps) later = publish_run (on_ok ps) (filter (\<lambda>e. e \<noteq> RelayOk) later) \<and>
   input (snd (publish_run (on_ok ps) (later @ InputChanged v # replicate n RelayOk))) = v"
proof -
  have twice: "on_ok (on_ok ps) = on_ok ps" by (rule on_ok_twice)
  have many: "publish_run ps (replicate (Suc (Suc n)) RelayOk) = publish_run ps [RelayOk]"
    using publish_run_replies [of "replicate (Suc (Suc n)) RelayOk" ps]
    by (simp add: publish_run_def)
  have later: "publish_run (on_ok ps) later =
      publish_run (on_ok ps) (filter (\<lambda>e. e \<noteq> RelayOk) later)"
    using publish_run_skips_ok [OF cleared_on_ok] .
  have typed: "input (snd (publish_run (on_ok ps) (later @ InputChanged v # replicate n RelayOk))) = v"
  proof -
    let ?mid = "publish_run (on_ok ps) later"
    have c: "clearedInput (fst ?mid)"
      using publish_run_keeps_cleared [OF cleared_on_ok] .
    have c': "clearedInput (fst (publish_step ?mid (InputChanged v)))"
      using c by (rule publish_step_keeps_cleared)
    have "publish_run (on_ok ps) (later @ InputChanged v # replicate n RelayOk) =
        publish_run (publish_step ?mid (InputChanged v)) (replicate n RelayOk)"
      by (simp add: publish_run_def)
    also have "\<dots> = publish_run (publish_step ?mid (InputChanged v))
        (filter (\<lambda>e. e \<noteq> RelayOk) (replicate n RelayOk))"
      using publish_run_skips_ok [OF c'] .
    also have "\<dots> = publish_step ?mid (InputChanged v)"
      by (simp add: publish_run_def)
    finally show ?thesis by simp
  qed
  from twice many later typed show ?thesis by simp
qed

theorem ok_listener_runs_once_witness:
  "publish_run (publication_example, note_example) [RelayOk, RelayOk, RelayOk] =
     publish_run (publication_example, note_example) [RelayOk] \<and>
   publish_run (on_ok (publication_example, note_example)) [RelayOk, InputChanged ''next'', RelayOk] =
     publish_run (on_ok (publication_example, note_example)) [InputChanged ''next''] \<and>
   input (snd (publish_run (on_ok (publication_example, note_example))
                 [RelayOk, InputChanged ''next'', RelayOk, RelayOk])) = ''next''"
  using ok_listener_runs_once [of "(publication_example, note_example)" 1
      "[RelayOk, InputChanged ''next'', RelayOk]" "''next''"]
    ok_listener_runs_once [of "(publication_example, note_example)" 2 "[RelayOk]" "''next''"]
  by (simp add: numeral_2_eq_2)

end
